theory Spec2Isabelle
  imports Main
begin

section \<open>The recency list: nodes in a store, linked both ways\<close>

text \<open>
  A \<open>Node\<close> object is a cell of a store, named by its address. Every reference the
  program holds (the map's values, \<open>head\<close>, \<open>tail\<close>, \<open>prev\<close>, \<open>next\<close>) is an
  address; \<open>null\<close> is \<open>None\<close>. Numbers (sizes, durations, instants) are integers.
\<close>

type_synonym addr = nat

record ('k, 'v) node =
  node_key :: 'k
  node_value :: 'v
  node_prev :: "addr option"
  node_next :: "addr option"
  node_size :: int
  node_expiry :: "int option"

type_synonym ('k, 'v) heap = "addr \<Rightarrow> ('k, 'v) node"

text \<open>The constructor \<open>new Node(key, value)\<close>: no links, size 0, no expiry.\<close>

definition Node :: "'k \<Rightarrow> 'v \<Rightarrow> ('k, 'v) node" where
  "Node k v = \<lparr>node_key = k, node_value = v, node_prev = None, node_next = None,
     node_size = 0, node_expiry = None\<rparr>"

record dll =
  dll_head :: "addr option"
  dll_tail :: "addr option"
  dll_length :: int

definition dll_new :: dll where
  "dll_new = \<lparr>dll_head = None, dll_tail = None, dll_length = 0\<rparr>"

text \<open>\<open>addToFront(node)\<close>. The assignments are made one after the other on the store.\<close>

definition addToFront :: "('k, 'v) heap \<Rightarrow> dll \<Rightarrow> addr \<Rightarrow> ('k, 'v) heap \<times> dll" where
  "addToFront h l n =
     (case dll_head l of
        None \<Rightarrow> (h, l\<lparr>dll_head := Some n, dll_tail := Some n, dll_length := dll_length l + 1\<rparr>)
      | Some hd0 \<Rightarrow>
          (let h1 = h(n := (h n)\<lparr>node_next := Some hd0\<rparr>);
               h2 = h1(hd0 := (h1 hd0)\<lparr>node_prev := Some n\<rparr>)
           in (h2, l\<lparr>dll_head := Some n, dll_length := dll_length l + 1\<rparr>)))"

text \<open>\<open>remove(node)\<close>: repair the neighbours (or head and tail), null the node's links.\<close>

definition remove_node :: "('k, 'v) heap \<Rightarrow> dll \<Rightarrow> addr \<Rightarrow> ('k, 'v) heap \<times> dll" where
  "remove_node h l n =
     (let (h1, l1) =
            (case node_prev (h n) of
               Some p \<Rightarrow> (h(p := (h p)\<lparr>node_next := node_next (h n)\<rparr>), l)
             | None \<Rightarrow> (h, l\<lparr>dll_head := node_next (h n)\<rparr>));
          (h2, l2) =
            (case node_next (h1 n) of
               Some q \<Rightarrow> (h1(q := (h1 q)\<lparr>node_prev := node_prev (h1 n)\<rparr>), l1)
             | None \<Rightarrow> (h1, l1\<lparr>dll_tail := node_prev (h1 n)\<rparr>));
          h3 = h2(n := (h2 n)\<lparr>node_prev := None, node_next := None\<rparr>)
      in (h3, l2\<lparr>dll_length := dll_length l2 - 1\<rparr>))"

text \<open>\<open>moveToFront(node)\<close>: nothing when the node is the head already.\<close>

definition moveToFront :: "('k, 'v) heap \<Rightarrow> dll \<Rightarrow> addr \<Rightarrow> ('k, 'v) heap \<times> dll" where
  "moveToFront h l n =
     (if dll_head l = Some n then (h, l)
      else (let (h1, l1) = remove_node h l n in addToFront h1 l1 n))"

text \<open>\<open>removeTail()\<close>: the removed node, or \<open>None\<close> for \<open>null\<close> on an empty list.\<close>

definition removeTail :: "('k, 'v) heap \<Rightarrow> dll \<Rightarrow> addr option \<times> ('k, 'v) heap \<times> dll" where
  "removeTail h l =
     (case dll_tail l of
        None \<Rightarrow> (None, h, l)
      | Some t \<Rightarrow> (let (h1, l1) = remove_node h l t in (Some t, h1, l1)))"

text \<open>\<open>DoublyLinkedList.clear()\<close>: head, tail and length are reset; no node is touched.\<close>

definition list_clear :: "dll \<Rightarrow> dll" where
  "list_clear l = l\<lparr>dll_head := None, dll_tail := None, dll_length := 0\<rparr>"

section \<open>The cache engine\<close>

text \<open>
  A public operation takes the instant \<open>now\<close> that \<open>Date.now()\<close> returns while it runs:
  one instant for the whole call, also where the call reads the clock more than once
  (set and the prune it calls, the loop of serialize, the calls of set in deserialize).
  An operation returns its result together with the cache it leaves; the operations
  that call prune return \<open>None\<close> when its second loop does not end.
\<close>

datatype EvictionReason = DELETED | EVICTED | EXPIRED | OVERWRITTEN | CACHE_CLEAR

text \<open>\<open>ItemOptions\<close>: an absent field is \<open>None\<close>.\<close>

record ItemOptions =
  io_ttl :: "int option"
  io_size :: "int option"

text \<open>
  The internal options after defaulting. \<open>Infinity\<close> for \<open>max\<close> and \<open>maxSize\<close> is
  \<open>None\<close>. \<open>opt_dispose\<close> tells whether a dispose callback is configured. The prune
  timer and \<open>asyncDispose\<close> are left out: the callback is called at the same point of
  the removal either way, only the handling of its outcome differs.
\<close>

record ('k, 'v) options =
  opt_max :: "int option"
  opt_maxSize :: "int option"
  opt_ttl :: int
  opt_sizeCalculation :: "'v \<Rightarrow> 'k \<Rightarrow> int"
  opt_dispose :: bool
  opt_noDisposeOnSet :: bool
  opt_allowStale :: bool

text \<open>
  A call of the dispose callback, logged with its arguments and with what the callback
  finds in the cache at that moment: the keys of the map, and the keys of the nodes
  along the list from its head. The callback itself is not modelled: it is taken not
  to call the cache.
\<close>

record ('k, 'v) disposal =
  d_value :: 'v
  d_key :: 'k
  d_reason :: EvictionReason
  d_index :: "'k list"
  d_list :: "'k list"

text \<open>
  The cache: the node store with its allocation pointer, the \<open>Map\<close> from keys to
  node references as an association list in insertion order (the order in which
  \<open>entries()\<close> iterates), the list, the counters, and the log of dispose calls.
\<close>

record ('k, 'v) lru =
  heap :: "('k, 'v) heap"
  nxt :: addr
  cache :: "('k \<times> addr) list"
  lst :: dll
  totalSize :: int
  hits :: nat
  misses :: nat
  disposed :: "('k, 'v) disposal list"

definition lru_new :: "('k, 'v) heap \<Rightarrow> ('k, 'v) lru" where
  "lru_new h0 = \<lparr>heap = h0, nxt = 0, cache = [], lst = dll_new, totalSize = 0,
     hits = 0, misses = 0, disposed = []\<rparr>"

text \<open>\<open>Map.set\<close>: a present key keeps its place, a new key goes last. \<open>Map.delete\<close>.\<close>

fun map_set :: "'k \<Rightarrow> addr \<Rightarrow> ('k \<times> addr) list \<Rightarrow> ('k \<times> addr) list" where
  "map_set k a [] = [(k, a)]"
| "map_set k a ((k', a') # m) = (if k' = k then (k, a) # m else (k', a') # map_set k a m)"

definition map_delete :: "'k \<Rightarrow> ('k \<times> addr) list \<Rightarrow> ('k \<times> addr) list" where
  "map_delete k m = filter (\<lambda>e. fst e \<noteq> k) m"

text \<open>The \<open>size\<close> accessor: \<open>this.cache.size\<close>.\<close>

definition lru_size :: "('k, 'v) lru \<Rightarrow> nat" where
  "lru_size s = length (cache s)"

text \<open>The nodes met from \<open>cur\<close> along \<open>next\<close>, at most \<open>fuel\<close> of them.\<close>

fun walk :: "('k, 'v) heap \<Rightarrow> nat \<Rightarrow> addr option \<Rightarrow> addr list" where
  "walk h 0 cur = []"
| "walk h (Suc fuel) cur =
     (case cur of None \<Rightarrow> [] | Some a \<Rightarrow> a # walk h fuel (node_next (h a)))"

definition list_keys :: "('k, 'v) lru \<Rightarrow> 'k list" where
  "list_keys s =
     map (\<lambda>a. node_key (heap s a)) (walk (heap s) (nat (dll_length (lst s))) (dll_head (lst s)))"

text \<open>\<open>disposeItem\<close>: nothing without a callback; what the callback throws is caught.\<close>

definition disposeItem ::
  "('k, 'v) options \<Rightarrow> ('k, 'v) lru \<Rightarrow> 'k \<Rightarrow> 'v \<Rightarrow> EvictionReason \<Rightarrow> ('k, 'v) lru" where
  "disposeItem opts s key val reason =
     (if \<not> opt_dispose opts then s
      else s\<lparr>disposed := disposed s @
             [\<lparr>d_value = val, d_key = key, d_reason = reason,
               d_index = map fst (cache s), d_list = list_keys s\<rparr>]\<rparr>)"

text \<open>\<open>delete(key, reason)\<close>.\<close>

definition lru_delete ::
  "('k, 'v) options \<Rightarrow> ('k, 'v) lru \<Rightarrow> 'k \<Rightarrow> EvictionReason \<Rightarrow> bool \<times> ('k, 'v) lru" where
  "lru_delete opts s key reason =
     (case map_of (cache s) key of
        None \<Rightarrow> (False, s)
      | Some n \<Rightarrow>
          (let s1 = disposeItem opts s (node_key (heap s n)) (node_value (heap s n)) reason;
               s2 = s1\<lparr>cache := map_delete key (cache s1)\<rparr>;
               (h, l) = remove_node (heap s2) (lst s2) n;
               s3 = s2\<lparr>heap := h, lst := l\<rparr>;
               s4 = s3\<lparr>totalSize := totalSize s3 - node_size (heap s3 n)\<rparr>
           in (True, s4)))"

text \<open>\<open>get(key)\<close> at the instant \<open>now\<close> read from the clock.\<close>

definition lru_get ::
  "('k, 'v) options \<Rightarrow> ('k, 'v) lru \<Rightarrow> 'k \<Rightarrow> int \<Rightarrow> 'v option \<times> ('k, 'v) lru" where
  "lru_get opts s key now =
     (case map_of (cache s) key of
        None \<Rightarrow> (None, s\<lparr>misses := misses s + 1\<rparr>)
      | Some n \<Rightarrow>
          (if (case node_expiry (heap s n) of None \<Rightarrow> False | Some e \<Rightarrow> e < now) then
             (if opt_allowStale opts then
                (Some (node_value (heap s n)), s\<lparr>hits := hits s + 1\<rparr>)
              else
                (let s1 = snd (lru_delete opts s key EXPIRED)
                 in (None, s1\<lparr>misses := misses s1 + 1\<rparr>)))
           else
             (let (h, l) = moveToFront (heap s) (lst s) n;
                  s1 = s\<lparr>heap := h, lst := l\<rparr>
              in (Some (node_value (heap s1 n)), s1\<lparr>hits := hits s1 + 1\<rparr>))))"

text \<open>\<open>has(key)\<close> and \<open>peek(key)\<close>; both return the cache as they found it.\<close>

definition lru_has ::
  "('k, 'v) options \<Rightarrow> ('k, 'v) lru \<Rightarrow> 'k \<Rightarrow> int \<Rightarrow> bool \<times> ('k, 'v) lru" where
  "lru_has opts s key now =
     (case map_of (cache s) key of
        None \<Rightarrow> (False, s)
      | Some n \<Rightarrow>
          (if (case node_expiry (heap s n) of None \<Rightarrow> False | Some e \<Rightarrow> e < now)
              \<and> \<not> opt_allowStale opts
           then (False, s) else (True, s)))"

definition lru_peek ::
  "('k, 'v) options \<Rightarrow> ('k, 'v) lru \<Rightarrow> 'k \<Rightarrow> int \<Rightarrow> 'v option \<times> ('k, 'v) lru" where
  "lru_peek opts s key now =
     (case map_of (cache s) key of
        None \<Rightarrow> (None, s)
      | Some n \<Rightarrow>
          (if (case node_expiry (heap s n) of None \<Rightarrow> False | Some e \<Rightarrow> e < now)
              \<and> \<not> opt_allowStale opts
           then (None, s) else (Some (node_value (heap s n)), s)))"

text \<open>\<open>clear()\<close>: the callback for every entry when there is one, then the reset.\<close>

fun dispose_all ::
  "('k, 'v) options \<Rightarrow> ('k \<times> addr) list \<Rightarrow> ('k, 'v) lru \<Rightarrow> ('k, 'v) lru" where
  "dispose_all opts [] s = s"
| "dispose_all opts ((key, n) # rest) s =
     dispose_all opts rest (disposeItem opts s key (node_value (heap s n)) CACHE_CLEAR)"

definition lru_clear :: "('k, 'v) options \<Rightarrow> ('k, 'v) lru \<Rightarrow> ('k, 'v) lru" where
  "lru_clear opts s =
     (let s1 = (if opt_dispose opts then dispose_all opts (cache s) s else s)
      in s1\<lparr>cache := [], lst := list_clear (lst s1), totalSize := 0\<rparr>)"

text \<open>
  \<open>prune()\<close>, first loop: the entries of the map in order; an entry whose expiry is at
  or before \<open>now\<close> is deleted. The loop deletes only the entry it stands on, so the
  iteration meets exactly the entries the map held when the loop began.
\<close>

fun expire_loop ::
  "('k, 'v) options \<Rightarrow> int \<Rightarrow> ('k \<times> addr) list \<Rightarrow> nat \<Rightarrow> ('k, 'v) lru \<Rightarrow> nat \<times> ('k, 'v) lru" where
  "expire_loop opts now [] pruned s = (pruned, s)"
| "expire_loop opts now ((key, n) # rest) pruned s =
     (if (case node_expiry (heap s n) of None \<Rightarrow> False | Some e \<Rightarrow> e \<le> now)
      then expire_loop opts now rest (pruned + 1) (snd (lru_delete opts s key EXPIRED))
      else expire_loop opts now rest pruned s)"

text \<open>The condition of the second loop.\<close>

definition over_limit :: "('k, 'v) options \<Rightarrow> ('k, 'v) lru \<Rightarrow> bool" where
  "over_limit opts s =
     ((case opt_max opts of None \<Rightarrow> False | Some m \<Rightarrow> int (length (cache s)) > m) \<or>
      (case opt_maxSize opts of None \<Rightarrow> False | Some m \<Rightarrow> totalSize s > m))"

text \<open>Its body: \<open>None\<close> is the \<open>break\<close> on an empty list.\<close>

definition evict_tail :: "('k, 'v) options \<Rightarrow> ('k, 'v) lru \<Rightarrow> ('k, 'v) lru option" where
  "evict_tail opts s =
     (case removeTail (heap s) (lst s) of
        (None, h, l) \<Rightarrow> None
      | (Some n, h, l) \<Rightarrow>
          (let s1 = s\<lparr>heap := h, lst := l\<rparr>;
               s2 = s1\<lparr>cache := map_delete (node_key (heap s1 n)) (cache s1)\<rparr>;
               s3 = disposeItem opts s2 (node_key (heap s2 n)) (node_value (heap s2 n)) EVICTED;
               s4 = s3\<lparr>totalSize := totalSize s3 - node_size (heap s3 n)\<rparr>
           in Some s4))"

text \<open>The second loop. It need not end on a store whose links are broken.\<close>

partial_function (option) capacity_loop ::
  "('k, 'v) options \<Rightarrow> nat \<Rightarrow> ('k, 'v) lru \<Rightarrow> (nat \<times> ('k, 'v) lru) option" where
  "capacity_loop opts pruned s =
     (if over_limit opts s then
        (case evict_tail opts s of
           None \<Rightarrow> Some (pruned, s)
         | Some s' \<Rightarrow> capacity_loop opts (pruned + 1) s')
      else Some (pruned, s))"

declare capacity_loop.simps [code]

definition lru_prune ::
  "('k, 'v) options \<Rightarrow> ('k, 'v) lru \<Rightarrow> int \<Rightarrow> (nat \<times> ('k, 'v) lru) option" where
  "lru_prune opts s now =
     (let (pruned, s1) = expire_loop opts now (cache s) 0 s
      in capacity_loop opts pruned s1)"

text \<open>
  The time to live and the size of an item: the item's own option when it is given,
  the cache's default or size function otherwise.
\<close>

definition item_ttl :: "('k, 'v) options \<Rightarrow> ItemOptions \<Rightarrow> int" where
  "item_ttl opts io = (case io_ttl io of Some t \<Rightarrow> t | None \<Rightarrow> opt_ttl opts)"

definition item_size :: "('k, 'v) options \<Rightarrow> 'v \<Rightarrow> 'k \<Rightarrow> ItemOptions \<Rightarrow> int" where
  "item_size opts val key io =
     (case io_size io of Some z \<Rightarrow> z | None \<Rightarrow> opt_sizeCalculation opts val key)"

text \<open>
  \<open>set(key, value, options)\<close>, up to the call of \<open>prune\<close>: the old entry is unlinked,
  the new node is allocated, put first in the list and stored in the map.
\<close>

definition set_insert ::
  "('k, 'v) options \<Rightarrow> ('k, 'v) lru \<Rightarrow> 'k \<Rightarrow> 'v \<Rightarrow> ItemOptions \<Rightarrow> int \<Rightarrow> ('k, 'v) lru" where
  "set_insert opts s key val io now =
     (let s2 =
            (case map_of (cache s) key of
               None \<Rightarrow> s
             | Some ex \<Rightarrow>
                 (let s1 = (if \<not> opt_noDisposeOnSet opts
                            then disposeItem opts s (node_key (heap s ex)) (node_value (heap s ex))
                                   OVERWRITTEN
                            else s);
                      (h, l) = remove_node (heap s1) (lst s1) ex
                  in s1\<lparr>heap := h, lst := l, totalSize := totalSize s1 - node_size (h ex)\<rparr>));
          ttl = item_ttl opts io;
          expiry = (if ttl > 0 then Some (now + ttl) else None);
          size = item_size opts val key io;
          n = nxt s2;
          h1 = (heap s2)(n := (Node key val)\<lparr>node_size := size, node_expiry := expiry\<rparr>);
          (h2, l2) = addToFront h1 (lst s2) n
      in s2\<lparr>heap := h2, nxt := n + 1, lst := l2, cache := map_set key n (cache s2),
            totalSize := totalSize s2 + size\<rparr>)"

definition lru_set ::
  "('k, 'v) options \<Rightarrow> ('k, 'v) lru \<Rightarrow> 'k \<Rightarrow> 'v \<Rightarrow> ItemOptions \<Rightarrow> int \<Rightarrow> ('k, 'v) lru option" where
  "lru_set opts s key val io now =
     map_option snd (lru_prune opts (set_insert opts s key val io now) now)"

text \<open>\<open>serialize()\<close>: one tuple for an entry, none for an expired one unless stale
  entries are allowed.\<close>

fun serialize_entries ::
  "('k, 'v) options \<Rightarrow> ('k, 'v) heap \<Rightarrow> int \<Rightarrow> ('k \<times> addr) list \<Rightarrow> ('k \<times> 'v \<times> ItemOptions) list" where
  "serialize_entries opts h now [] = []"
| "serialize_entries opts h now ((key, n) # rest) =
     (case node_expiry (h n) of
        None \<Rightarrow>
          (key, node_value (h n), \<lparr>io_ttl = None, io_size = Some (node_size (h n))\<rparr>)
            # serialize_entries opts h now rest
      | Some e \<Rightarrow>
          (let ttl = e - now in
           if ttl > 0 then
             (key, node_value (h n), \<lparr>io_ttl = Some ttl, io_size = Some (node_size (h n))\<rparr>)
               # serialize_entries opts h now rest
           else if \<not> opt_allowStale opts then serialize_entries opts h now rest
           else
             (key, node_value (h n), \<lparr>io_ttl = None, io_size = Some (node_size (h n))\<rparr>)
               # serialize_entries opts h now rest))"

definition lru_serialize ::
  "('k, 'v) options \<Rightarrow> ('k, 'v) lru \<Rightarrow> int \<Rightarrow> ('k \<times> 'v \<times> ItemOptions) list \<times> ('k, 'v) lru" where
  "lru_serialize opts s now = (serialize_entries opts (heap s) now (cache s), s)"

text \<open>\<open>deserialize(data)\<close>: \<open>clear\<close>, then \<open>set\<close> for each tuple in order.\<close>

fun set_all ::
  "('k, 'v) options \<Rightarrow> int \<Rightarrow> ('k \<times> 'v \<times> ItemOptions) list \<Rightarrow> ('k, 'v) lru \<Rightarrow> ('k, 'v) lru option" where
  "set_all opts now [] s = Some s"
| "set_all opts now ((key, val, io) # rest) s =
     (case lru_set opts s key val io now of
        None \<Rightarrow> None
      | Some s' \<Rightarrow> set_all opts now rest s')"

definition lru_deserialize ::
  "('k, 'v) options \<Rightarrow> ('k, 'v) lru \<Rightarrow> ('k \<times> 'v \<times> ItemOptions) list \<Rightarrow> int \<Rightarrow> ('k, 'v) lru option" where
  "lru_deserialize opts s data now = set_all opts now data (lru_clear opts s)"

section \<open>Well-formed stores and caches\<close>

text \<open>
  The definitions of this section describe states; the program does not compute them.
  \<open>seg h p xs q\<close>: the nodes \<open>xs\<close> are linked in this order in the store \<open>h\<close>, the first
  with \<open>prev = p\<close>, the last with \<open>next = q\<close>. \<open>list_is h l xs\<close>: the list \<open>l\<close> consists
  of exactly the nodes \<open>xs\<close> from head to tail. \<open>list_inv\<close> adds that no node occurs
  twice and that the length field counts them.
\<close>

fun hd_or :: "addr list \<Rightarrow> addr option \<Rightarrow> addr option" where
  "hd_or [] d = d"
| "hd_or (a # as) d = Some a"

fun last_or :: "addr option \<Rightarrow> addr list \<Rightarrow> addr option" where
  "last_or d [] = d"
| "last_or d (a # as) = last_or (Some a) as"

fun seg :: "('k, 'v) heap \<Rightarrow> addr option \<Rightarrow> addr list \<Rightarrow> addr option \<Rightarrow> bool" where
  "seg h p [] q = True"
| "seg h p (a # as) q =
     (node_prev (h a) = p \<and> node_next (h a) = hd_or as q \<and> seg h (Some a) as q)"

definition list_is :: "('k, 'v) heap \<Rightarrow> dll \<Rightarrow> addr list \<Rightarrow> bool" where
  "list_is h l xs =
     (dll_head l = hd_or xs None \<and> dll_tail l = last_or None xs \<and> seg h None xs None)"

definition list_inv :: "('k, 'v) heap \<Rightarrow> dll \<Rightarrow> addr list \<Rightarrow> bool" where
  "list_inv h l xs = (list_is h l xs \<and> distinct xs \<and> dll_length l = int (length xs))"

text \<open>
  What a node carries apart from its links, and two stores that differ in links only.
\<close>

definition payload :: "('k, 'v) node \<Rightarrow> 'k \<times> 'v \<times> int \<times> int option" where
  "payload n = (node_key n, node_value n, node_size n, node_expiry n)"

definition same_payload :: "('k, 'v) heap \<Rightarrow> ('k, 'v) heap \<Rightarrow> bool" where
  "same_payload h h' = (\<forall>a. payload (h' a) = payload (h a))"

text \<open>
  A well-formed cache with the nodes \<open>xs\<close> in its list: the map has one entry for each
  key, refers to exactly the nodes of the list, each under the node's own key; the
  nodes were allocated; and the total size is the sum of the sizes of the entries.
\<close>

definition cache_inv :: "('k, 'v) lru \<Rightarrow> addr list \<Rightarrow> bool" where
  "cache_inv s xs =
     (list_inv (heap s) (lst s) xs \<and>
      distinct (map fst (cache s)) \<and> distinct (map snd (cache s)) \<and>
      set (map snd (cache s)) = set xs \<and>
      (\<forall>e \<in> set (cache s). node_key (heap s (snd e)) = fst e) \<and>
      (\<forall>a \<in> set xs. a < nxt s) \<and>
      totalSize s = sum_list (map (\<lambda>e. node_size (heap s (snd e))) (cache s)))"

text \<open>
  The dispose call the second loop of prune makes when it evicts the last node \<open>a\<close> of
  the list \<open>ys @ [a]\<close> in state \<open>s\<close>.
\<close>

definition evicted_event :: "('k, 'v) lru \<Rightarrow> addr list \<Rightarrow> addr \<Rightarrow> ('k, 'v) disposal" where
  "evicted_event s ys a =
     \<lparr>d_value = node_value (heap s a), d_key = node_key (heap s a), d_reason = EVICTED,
      d_index = map fst (map_delete (node_key (heap s a)) (cache s)),
      d_list = map (\<lambda>b. node_key (heap s b)) ys\<rparr>"

text \<open>A node is due at an instant when its expiry is at or before it, as prune tests.\<close>

definition due :: "int \<Rightarrow> ('k, 'v) node \<Rightarrow> bool" where
  "due now nd = (case node_expiry nd of None \<Rightarrow> False | Some e \<Rightarrow> e \<le> now)"










text \<open>
  The states a cache can be in: a new cache, and what a public operation makes of a
  state it can be in, for any arguments and any reading of the clock. \<open>ok\<close> says
  which item sizes the callers pass.
\<close>

inductive reachable ::
  "(int \<Rightarrow> bool) \<Rightarrow> ('k, 'v) options \<Rightarrow> ('k, 'v) lru \<Rightarrow> bool"
  for ok :: "int \<Rightarrow> bool" and opts :: "('k, 'v) options" where
  r_new: "reachable ok opts (lru_new h0)"
| r_get: "reachable ok opts s \<Longrightarrow> reachable ok opts (snd (lru_get opts s key now))"
| r_has: "reachable ok opts s \<Longrightarrow> reachable ok opts (snd (lru_has opts s key now))"
| r_peek: "reachable ok opts s \<Longrightarrow> reachable ok opts (snd (lru_peek opts s key now))"
| r_set: "reachable ok opts s \<Longrightarrow> ok (item_size opts val key io) \<Longrightarrow>
     lru_set opts s key val io now = Some s' \<Longrightarrow> reachable ok opts s'"
| r_delete: "reachable ok opts s \<Longrightarrow> reachable ok opts (snd (lru_delete opts s key reason))"
| r_clear: "reachable ok opts s \<Longrightarrow> reachable ok opts (lru_clear opts s)"
| r_prune: "reachable ok opts s \<Longrightarrow> lru_prune opts s now = Some (n, s') \<Longrightarrow>
     reachable ok opts s'"
| r_serialize: "reachable ok opts s \<Longrightarrow> reachable ok opts (snd (lru_serialize opts s now))"
| r_deserialize: "reachable ok opts s \<Longrightarrow>
     list_all (\<lambda>d. ok (item_size opts (fst (snd d)) (fst d) (snd (snd d)))) data \<Longrightarrow>
     lru_deserialize opts s data now = Some s' \<Longrightarrow> reachable ok opts s'"

text \<open>
  The options the constructor gives a cache made with no options, and a store
  in which nothing is allocated yet, for the examples.
\<close>

definition default_options :: "(string, int) options" where
  "default_options = \<lparr>opt_max = None, opt_maxSize = None, opt_ttl = 0,
     opt_sizeCalculation = (\<lambda>v k. 1), opt_dispose = False, opt_noDisposeOnSet = False,
     opt_allowStale = False\<rparr>"

definition blank :: "(string, int) heap" where
  "blank = (\<lambda>a. Node [] 0)"

definition no_options :: ItemOptions where
  "no_options = \<lparr>io_ttl = None, io_size = None\<rparr>"






section \<open>The list operations on a well-formed list\<close>

lemma hd_or_append: "hd_or (ys @ zs) d = hd_or ys (hd_or zs d)"
  by (cases ys) auto

lemma last_or_append: "last_or d (ys @ zs) = last_or (last_or d ys) zs"
  by (induction ys arbitrary: d) auto

lemma last_or_snoc: "last_or d (ys @ [a]) = Some a"
  by (simp add: last_or_append)

lemma seg_append:
  "seg h p (ys @ zs) q = (seg h p ys (hd_or zs q) \<and> seg h (last_or p ys) zs q)"
  by (induction ys arbitrary: p) (auto simp: hd_or_append)

lemma seg_upd_other: "a \<notin> set xs \<Longrightarrow> seg (h(a := v)) p xs q = seg h p xs q"
  by (induction xs arbitrary: p) auto

lemma addToFront_inv:
  assumes "list_inv h l xs" "n \<notin> set xs" "node_prev (h n) = None" "node_next (h n) = None"
    and "addToFront h l n = (h', l')"
  shows "list_inv h' l' (n # xs)"
  using assms
  by (cases xs) (auto simp: list_inv_def list_is_def addToFront_def Let_def seg_upd_other split: option.splits)

lemma addToFront_payload:
  "addToFront h l n = (h', l') \<Longrightarrow> payload (h' a) = payload (h a)"
  by (auto simp: addToFront_def Let_def payload_def split: option.splits if_splits)

lemma remove_node_inv:
  assumes "list_inv h l xs" "n \<in> set xs" "remove_node h l n = (h', l')"
  shows "list_inv h' l' (remove1 n xs) \<and> node_prev (h' n) = None \<and> node_next (h' n) = None"
proof -
  from assms(2) obtain ys zs where xs: "xs = ys @ n # zs" and nys: "n \<notin> set ys"
    by (meson split_list_first)
  from assms(1) xs have nzs: "n \<notin> set zs" and d: "distinct ys" "distinct zs" "set ys \<inter> set zs = {}"
    by (auto simp: list_inv_def)
  have r: "remove1 n xs = ys @ zs" using xs nys by (simp add: remove1_append)
  have sg: "seg h None ys (Some n)" "node_prev (h n) = last_or None ys"
      "node_next (h n) = hd_or zs None" "seg h (Some n) zs None"
    using assms(1) xs by (auto simp: list_inv_def list_is_def seg_append)
  have "list_inv h' l' (ys @ zs) \<and> node_prev (h' n) = None \<and> node_next (h' n) = None"
  proof (cases ys rule: rev_cases)
    case Nil
    show ?thesis
    proof (cases zs)
      case Nil
      with \<open>ys = []\<close> assms xs sg show ?thesis
        by (auto simp: list_inv_def list_is_def remove_node_def Let_def split: option.splits)
    next
      case (Cons q zs')
      with \<open>ys = []\<close> assms xs sg nzs d show ?thesis
        by (auto simp: list_inv_def list_is_def remove_node_def Let_def seg_upd_other split: option.splits)
    qed
  next
    case (snoc ys' p)
    show ?thesis
    proof (cases zs)
      case Nil
      with snoc assms xs sg nys d show ?thesis
        by (auto simp: list_inv_def list_is_def remove_node_def Let_def seg_upd_other seg_append last_or_append hd_or_append split: option.splits)
    next
      case (Cons q zs')
      with snoc assms xs sg nys nzs d show ?thesis
        by (auto simp: list_inv_def list_is_def remove_node_def Let_def seg_upd_other seg_append last_or_append hd_or_append split: option.splits)
    qed
  qed
  then show ?thesis by (simp add: r)
qed

lemma remove_node_payload:
  "remove_node h l n = (h', l') \<Longrightarrow> payload (h' a) = payload (h a)"
  by (auto simp: remove_node_def Let_def payload_def split: option.splits if_splits prod.splits)

lemma moveToFront_inv:
  assumes "list_inv h l xs" "n \<in> set xs" "moveToFront h l n = (h', l')"
  shows "list_inv h' l' (n # remove1 n xs)"
proof (cases "dll_head l = Some n")
  case True
  with assms have "xs = n # remove1 n xs"
    by (cases xs) (auto simp: list_inv_def list_is_def)
  with True assms show ?thesis by (simp add: moveToFront_def)
next
  case False
  obtain h1 l1 where r: "remove_node h l n = (h1, l1)" by force
  have "n \<notin> set (remove1 n xs)" using assms(1) by (simp add: list_inv_def)
  with remove_node_inv[OF assms(1,2) r] False assms(3) r show ?thesis
    by (auto simp: moveToFront_def intro!: addToFront_inv)
qed

lemma moveToFront_payload:
  "moveToFront h l n = (h', l') \<Longrightarrow> payload (h' a) = payload (h a)"
  by (auto simp: moveToFront_def Let_def split: if_splits prod.splits
      dest!: addToFront_payload[where a=a] remove_node_payload[where a=a])

lemma list_inv_tail: "list_inv h l xs \<Longrightarrow> dll_tail l = (if xs = [] then None else Some (last xs))"
  by (cases xs rule: rev_cases) (auto simp: list_inv_def list_is_def last_or_append)

lemma list_inv_head: "list_inv h l xs \<Longrightarrow> dll_head l = (if xs = [] then None else Some (hd xs))"
  by (cases xs) (auto simp: list_inv_def list_is_def)

lemma removeTail_empty:
  "list_inv h l [] \<Longrightarrow> removeTail h l = (None, h, l)"
  by (simp add: removeTail_def list_inv_tail)

lemma removeTail_inv:
  assumes "list_inv h l xs" "xs \<noteq> []" "removeTail h l = (r, h', l')"
  shows "r = Some (last xs) \<and> list_inv h' l' (butlast xs)"
proof -
  from assms(1,2) have t: "dll_tail l = Some (last xs)" by (simp add: list_inv_tail)
  obtain h1 l1 where rm: "remove_node h l (last xs) = (h1, l1)" by force
  have "remove1 (last xs) xs = butlast xs"
    using assms(1,2) by (cases xs rule: rev_cases) (auto simp: list_inv_def remove1_append)
  with remove_node_inv[OF assms(1) _ rm] assms t rm show ?thesis
    by (auto simp: removeTail_def)
qed

lemma removeTail_payload:
  "removeTail h l = (r, h', l') \<Longrightarrow> payload (h' a) = payload (h a)"
  by (auto simp: removeTail_def split: option.splits prod.splits dest!: remove_node_payload[where a=a])

lemma list_inv_new: "list_inv h dll_new []"
  by (simp add: list_inv_def list_is_def dll_new_def)

lemma walk_seg: "seg h p xs None \<Longrightarrow> walk h (length xs) (hd_or xs None) = xs"
  by (induction xs arbitrary: p) auto

lemma walk_list_inv: "list_inv h l xs \<Longrightarrow> walk h (nat (dll_length l)) (dll_head l) = xs"
  using walk_seg[of h None xs] by (simp add: list_inv_def list_is_def)

lemma same_payload_refl: "same_payload h h"
  by (simp add: same_payload_def)

lemma same_payload_trans: "same_payload h h1 \<Longrightarrow> same_payload h1 h2 \<Longrightarrow> same_payload h h2"
  by (simp add: same_payload_def)

lemma same_payload_fields:
  assumes "same_payload h h'"
  shows "node_key (h' a) = node_key (h a)" "node_value (h' a) = node_value (h a)"
    "node_size (h' a) = node_size (h a)" "node_expiry (h' a) = node_expiry (h a)"
  using assms[unfolded same_payload_def, rule_format, of a] by (auto simp: payload_def)

lemma remove_node_same: "remove_node h l n = (h', l') \<Longrightarrow> same_payload h h'"
  unfolding same_payload_def using remove_node_payload by blast

lemma addToFront_same: "addToFront h l n = (h', l') \<Longrightarrow> same_payload h h'"
  unfolding same_payload_def using addToFront_payload by blast

lemma moveToFront_same: "moveToFront h l n = (h', l') \<Longrightarrow> same_payload h h'"
  unfolding same_payload_def using moveToFront_payload by blast

lemma removeTail_same: "removeTail h l = (r, h', l') \<Longrightarrow> same_payload h h'"
  unfolding same_payload_def using removeTail_payload by blast

lemma map_of_cache_mem:
  "distinct (map fst m) \<Longrightarrow> (map_of m k = Some n) = ((k, n) \<in> set m)"
  by (auto)

lemma map_delete_absent: "k \<notin> fst ` set m \<Longrightarrow> map_delete k m = m"
  by (induction m) (auto simp: map_delete_def)

lemma sum_map_delete:
  assumes "distinct (map fst m)" "(k, n) \<in> set m"
  shows "sum_list (map f (map_delete k m)) = sum_list (map f m) - (f (k, n) :: int)"
  using assms
proof (induction m)
  case Nil
  then show ?case by simp
next
  case (Cons e m)
  show ?case
  proof (cases "fst e = k")
    case True
    with Cons.prems have "e = (k, n)" "k \<notin> fst ` set m" by (auto simp: rev_image_eqI)
    then show ?thesis using map_delete_absent[of k m] by (simp add: map_delete_def)
  next
    case False
    with Cons have "sum_list (map f (map_delete k m)) = sum_list (map f m) - f (k, n)" by auto
    with False show ?thesis by (simp add: map_delete_def)
  qed
qed

lemma set_snd_map_delete:
  assumes "distinct (map fst m)" "distinct (map snd m)" "(k, n) \<in> set m"
  shows "snd ` set (map_delete k m) = snd ` set m - {n}"
proof -
  have i: "inj_on fst (set m)" "inj_on snd (set m)"
    using assms by (auto simp: distinct_map)
  have "(fst e \<noteq> k) = (snd e \<noteq> n)" if "e \<in> set m" for e
    using inj_onD[OF i(1), of e "(k, n)"] inj_onD[OF i(2), of e "(k, n)"] that assms(3)
    by (metis fst_conv snd_conv)
  then have "set (map_delete k m) = {e \<in> set m. snd e \<noteq> n}"
    by (auto simp: map_delete_def)
  then show ?thesis by auto
qed

lemma distinct_map_delete:
  "distinct (map f m) \<Longrightarrow> distinct (map f (map_delete k m))"
  by (simp add: map_delete_def distinct_map_filter)

lemma disposeItem_frame:
  "heap (disposeItem opts s k v r) = heap s" "lst (disposeItem opts s k v r) = lst s"
  "cache (disposeItem opts s k v r) = cache s" "nxt (disposeItem opts s k v r) = nxt s"
  "totalSize (disposeItem opts s k v r) = totalSize s" "hits (disposeItem opts s k v r) = hits s"
  "misses (disposeItem opts s k v r) = misses s"
  by (simp_all add: disposeItem_def)

lemma lru_delete_absent: "map_of (cache s) key = None \<Longrightarrow> lru_delete opts s key r = (False, s)"
  by (simp add: lru_delete_def)

lemma lru_delete_present:
  fixes opts :: "('k, 'v) options" and r :: EvictionReason
  assumes inv: "cache_inv s xs" and look: "map_of (cache s) key = Some n"
  defines "s' \<equiv> snd (lru_delete opts s key r)"
  shows "fst (lru_delete opts s key r)" "cache_inv s' (remove1 n xs)"
    "cache s' = map_delete key (cache s)" "same_payload (heap s) (heap s')"
    "nxt s' = nxt s" "hits s' = hits s" "misses s' = misses s"
    "totalSize s' = totalSize s - node_size (heap s n)"
    "disposed s' = disposed (disposeItem opts s (node_key (heap s n)) (node_value (heap s n)) r)"
proof -
  obtain h l where rm: "remove_node (heap s) (lst s) n = (h, l)" by force
  have mem: "(key, n) \<in> set (cache s)" using look by (rule map_of_SomeD)
  have nin: "n \<in> set xs" using inv mem by (force simp: cache_inv_def)
  have li: "list_inv (heap s) (lst s) xs" using inv by (simp add: cache_inv_def)
  note ri = remove_node_inv[OF li nin rm]
  note sp = remove_node_same[OF rm]
  have s': "s' = s\<lparr>disposed := disposed (disposeItem opts s (node_key (heap s n)) (node_value (heap s n)) r),
      cache := map_delete key (cache s), heap := h, lst := l,
      totalSize := totalSize s - node_size (h n)\<rparr>"
    unfolding s'_def using look rm by (simp add: lru_delete_def Let_def disposeItem_def)
  show "fst (lru_delete opts s key r)" using look by (simp add: lru_delete_def Let_def split: prod.splits)
  show "cache s' = map_delete key (cache s)" "nxt s' = nxt s" "hits s' = hits s" "misses s' = misses s"
    "disposed s' = disposed (disposeItem opts s (node_key (heap s n)) (node_value (heap s n)) r)"
    by (simp_all add: s')
  show "same_payload (heap s) (heap s')" using sp by (simp add: s')
  show "totalSize s' = totalSize s - node_size (heap s n)"
    using same_payload_fields[OF sp] by (simp add: s')
  have d: "distinct (map fst (cache s))" "distinct (map snd (cache s))" using inv by (auto simp: cache_inv_def)
  have "sum_list (map (\<lambda>e. node_size (h (snd e))) (map_delete key (cache s)))
       = sum_list (map (\<lambda>e. node_size (heap s (snd e))) (map_delete key (cache s)))"
    using same_payload_fields[OF sp] by simp
  also have "\<dots> = totalSize s - node_size (heap s n)"
    using sum_map_delete[OF d(1) mem, of "\<lambda>e. node_size (heap s (snd e))"] inv by (simp add: cache_inv_def)
  finally have tot: "sum_list (map (\<lambda>e. node_size (h (snd e))) (map_delete key (cache s))) = totalSize s - node_size (h n)"
    using same_payload_fields[OF sp] by simp
  have keys: "\<forall>e \<in> set (map_delete key (cache s)). node_key (h (snd e)) = fst e"
    using inv same_payload_fields[OF sp] by (auto simp: cache_inv_def map_delete_def)
  have sx: "set (remove1 n xs) = set xs - {n}" using li by (simp add: list_inv_def)
  have "snd ` set (map_delete key (cache s)) = set (remove1 n xs)"
    using set_snd_map_delete[OF d mem] inv sx by (simp add: cache_inv_def)
  moreover have "\<forall>a\<in>set (remove1 n xs). a < nxt s" using inv sx by (simp add: cache_inv_def)
  ultimately show "cache_inv s' (remove1 n xs)"
    using ri d tot keys
    by (simp add: cache_inv_def s' distinct_map_delete)
qed

lemma cache_inv_counters [simp]:
  "cache_inv (s\<lparr>hits := x\<rparr>) xs = cache_inv s xs"
  "cache_inv (s\<lparr>misses := y\<rparr>) xs = cache_inv s xs"
  "cache_inv (s\<lparr>disposed := z\<rparr>) xs = cache_inv s xs"
  by (simp_all add: cache_inv_def)

lemma cache_inv_disposeItem [simp]: "cache_inv (disposeItem opts s k v r) xs = cache_inv s xs"
  by (simp add: disposeItem_def)

lemma cache_inv_relink:
  assumes "cache_inv s xs" "list_inv h' l' xs'" "set xs' = set xs" "same_payload (heap s) h'"
  shows "cache_inv (s\<lparr>heap := h', lst := l'\<rparr>) xs'"
proof -
  note f = same_payload_fields[OF assms(4)]
  show ?thesis using assms(1,2,3) by (simp add: cache_inv_def f)
qed

lemma cache_inv_mem: "cache_inv s xs \<Longrightarrow> map_of (cache s) key = Some n \<Longrightarrow> n \<in> set xs"
  by (force simp: cache_inv_def dest: map_of_SomeD)

lemma lru_get_inv:
  assumes "cache_inv s xs"
  shows "\<exists>xs'. cache_inv (snd (lru_get opts s key now)) xs'"
proof (cases "map_of (cache s) key")
  case None
  with assms show ?thesis by (auto simp: lru_get_def)
next
  case (Some n)
  obtain h l where m: "moveToFront (heap s) (lst s) n = (h, l)" by force
  have li: "list_inv (heap s) (lst s) xs" using assms by (simp add: cache_inv_def)
  have nin: "n \<in> set xs" using assms Some by (rule cache_inv_mem)
  have "cache_inv (s\<lparr>heap := h, lst := l\<rparr>) (n # remove1 n xs)"
    using cache_inv_relink[OF assms moveToFront_inv[OF li nin m] _ moveToFront_same[OF m]] nin li
    by (auto simp: list_inv_def)
  with Some m lru_delete_present(2)[OF assms Some, of opts EXPIRED] assms show ?thesis
    by (auto simp: lru_get_def Let_def)
qed

lemma map_set_absent: "k \<notin> fst ` set m \<Longrightarrow> map_set k a m = m @ [(k, a)]"
  by (induction m) auto

lemma map_of_None_iff: "(map_of m k = None) = (k \<notin> fst ` set m)"
  by (simp add: map_of_eq_None_iff)

lemma map_set_present:
  "distinct (map fst m) \<Longrightarrow> (k, n) \<in> set m \<Longrightarrow>
   map_set k a m = map (\<lambda>e. if fst e = k then (k, a) else e) m"
proof (induction m)
  case Nil
  then show ?case by simp
next
  case (Cons e m)
  show ?case
  proof (cases "fst e = k")
    case True
    with Cons.prems have "k \<notin> fst ` set m" by auto
    then have "map (\<lambda>e. if fst e = k then (k, a) else e) m = m"
      by (induction m) auto
    with True show ?thesis by (cases e) simp
  next
    case False
    with Cons show ?thesis by (cases e) auto
  qed
qed

lemma set_insert_absent:
  fixes opts :: "('k, 'v) options" and val :: 'v and io :: ItemOptions and now :: int
  assumes inv: "cache_inv s xs" and look: "map_of (cache s) key = None"
  defines "s' \<equiv> set_insert opts s key val io now"
  defines "ttl \<equiv> item_ttl opts io"
  defines "sz \<equiv> item_size opts val key io"
  shows "cache_inv s' (nxt s # xs)" "cache s' = cache s @ [(key, nxt s)]"
    "\<forall>a. a \<noteq> nxt s \<longrightarrow> payload (heap s' a) = payload (heap s a)"
    "payload (heap s' (nxt s)) = (key, val, sz, if ttl > 0 then Some (now + ttl) else None)"
    "nxt s' = nxt s + 1" "hits s' = hits s" "misses s' = misses s" "disposed s' = disposed s"
    "totalSize s' = totalSize s + sz"
proof -
  define nd where "nd = (Node key val)\<lparr>node_size := sz, node_expiry := (if ttl > 0 then Some (now + ttl) else None)\<rparr>"
  define h1 where "h1 = (heap s)(nxt s := nd)"
  obtain h2 l2 where af: "addToFront h1 (lst s) (nxt s) = (h2, l2)" by force
  have kn: "key \<notin> fst ` set (cache s)" using look by (simp add: map_of_None_iff)
  have s': "s' = s\<lparr>heap := h2, nxt := nxt s + 1, lst := l2, cache := cache s @ [(key, nxt s)],
      totalSize := totalSize s + sz\<rparr>"
    unfolding s'_def set_insert_def sz_def
    using look af[unfolded h1_def nd_def ttl_def sz_def] kn
    by (simp add: Let_def map_set_absent split del: if_split)
  have fresh: "nxt s \<notin> set xs" using inv by (auto simp: cache_inv_def)
  have li: "list_inv (heap s) (lst s) xs" using inv by (simp add: cache_inv_def)
  have li1: "list_inv h1 (lst s) xs"
    using li fresh by (simp add: list_inv_def list_is_def h1_def seg_upd_other)
  have li2: "list_inv h2 l2 (nxt s # xs)"
    using addToFront_inv[OF li1 fresh _ _ af] by (simp add: h1_def nd_def Node_def)
  note sp = same_payload_fields[OF addToFront_same[OF af]]
  have pl: "\<And>a. payload (h2 a) = payload (h1 a)"
    using addToFront_payload[OF af] by simp
  show "cache s' = cache s @ [(key, nxt s)]" "nxt s' = nxt s + 1" "hits s' = hits s"
    "misses s' = misses s" "disposed s' = disposed s" "totalSize s' = totalSize s + sz"
    by (simp_all add: s')
  show "\<forall>a. a \<noteq> nxt s \<longrightarrow> payload (heap s' a) = payload (heap s a)"
    by (simp add: s' pl h1_def)
  show "payload (heap s' (nxt s)) = (key, val, sz, if ttl > 0 then Some (now + ttl) else None)"
    using pl[of "nxt s"] by (simp add: s' h1_def nd_def payload_def Node_def)
  have "snd ` set (cache s) = set xs" using inv by (simp add: cache_inv_def)
  then have old: "\<And>e. e \<in> set (cache s) \<Longrightarrow> snd e \<noteq> nxt s"
    using fresh by (metis imageI)
  have sum: "sum_list (map (\<lambda>e. node_size (h2 (snd e))) (cache s)) = totalSize s"
  proof -
    have eq: "map (\<lambda>e. node_size (h2 (snd e))) (cache s) = map (\<lambda>e. node_size (heap s (snd e))) (cache s)"
      using old by (auto simp: sp h1_def)
    show ?thesis unfolding eq using inv by (simp add: cache_inv_def)
  qed
  have keys: "\<forall>e\<in>set (cache s). node_key (h2 (snd e)) = fst e"
    using inv old by (auto simp: sp h1_def cache_inv_def)
  show "cache_inv s' (nxt s # xs)"
    using li2 inv sum keys kn fresh
    by (auto simp: cache_inv_def s' sp h1_def nd_def Node_def)
qed

lemma map_set_split:
  "k \<notin> fst ` set m1 \<Longrightarrow> map_set k a (m1 @ (k, n) # m2) = m1 @ (k, a) # m2"
  by (induction m1) auto

lemma set_insert_present:
  fixes opts :: "('k, 'v) options" and val :: 'v and io :: ItemOptions and now :: int
  assumes inv: "cache_inv s xs" and look: "map_of (cache s) key = Some ex"
  defines "s' \<equiv> set_insert opts s key val io now"
  defines "ttl \<equiv> item_ttl opts io"
  defines "sz \<equiv> item_size opts val key io"
  shows "cache_inv s' (nxt s # remove1 ex xs)"
    "\<exists>m1 m2. cache s = m1 @ (key, ex) # m2 \<and> cache s' = m1 @ (key, nxt s) # m2"
    "\<forall>a. a \<noteq> nxt s \<longrightarrow> payload (heap s' a) = payload (heap s a)"
    "payload (heap s' (nxt s)) = (key, val, sz, if ttl > 0 then Some (now + ttl) else None)"
    "nxt s' = nxt s + 1" "hits s' = hits s" "misses s' = misses s"
    "disposed s' = (if opt_noDisposeOnSet opts then disposed s
       else disposed (disposeItem opts s (node_key (heap s ex)) (node_value (heap s ex)) OVERWRITTEN))"
    "totalSize s' = totalSize s - node_size (heap s ex) + sz"
proof -
  define s1 where "s1 = (if \<not> opt_noDisposeOnSet opts
       then disposeItem opts s (node_key (heap s ex)) (node_value (heap s ex)) OVERWRITTEN else s)"
  have s1: "heap s1 = heap s" "lst s1 = lst s" "cache s1 = cache s" "nxt s1 = nxt s"
    "totalSize s1 = totalSize s" "hits s1 = hits s" "misses s1 = misses s"
    by (simp_all add: s1_def disposeItem_frame)
  obtain h l where rm: "remove_node (heap s) (lst s) ex = (h, l)" by force
  define nd where "nd = (Node key val)\<lparr>node_size := sz, node_expiry := (if ttl > 0 then Some (now + ttl) else None)\<rparr>"
  define h1 where "h1 = h(nxt s := nd)"
  obtain h2 l2 where af: "addToFront h1 l (nxt s) = (h2, l2)" by force
  have mem: "(key, ex) \<in> set (cache s)" using look by (rule map_of_SomeD)
  have d: "distinct (map fst (cache s))" "distinct (map snd (cache s))"
    using inv by (auto simp: cache_inv_def)
  from mem obtain m1 m2 where c: "cache s = m1 @ (key, ex) # m2" by (meson split_list)
  have k1: "key \<notin> fst ` set m1" "key \<notin> fst ` set m2" "ex \<notin> snd ` set m1" "ex \<notin> snd ` set m2"
    using d c by auto
  have s': "s' = s1\<lparr>heap := h2, nxt := nxt s + 1, lst := l2, cache := m1 @ (key, nxt s) # m2,
      totalSize := totalSize s - node_size (h ex) + sz\<rparr>"
    unfolding s'_def set_insert_def sz_def
    using look af[unfolded h1_def nd_def ttl_def sz_def] rm s1 map_set_split[OF k1(1), of "nxt s" ex m2] c
    by (simp add: Let_def s1_def[symmetric] split del: if_split)
  have exin: "ex \<in> set xs" using inv look by (rule cache_inv_mem)
  have li: "list_inv (heap s) (lst s) xs" using inv by (simp add: cache_inv_def)
  note ri = remove_node_inv[OF li exin rm]
  note spr = same_payload_fields[OF remove_node_same[OF rm]]
  have fresh: "nxt s \<notin> set xs" using inv by (auto simp: cache_inv_def)
  then have fresh': "nxt s \<notin> set (remove1 ex xs)" by (meson notin_set_remove1)
  have li1: "list_inv h1 l (remove1 ex xs)"
    using ri fresh' by (simp add: list_inv_def list_is_def h1_def seg_upd_other)
  have nex: "nxt s \<noteq> ex" using fresh exin by auto
  have li2: "list_inv h2 l2 (nxt s # remove1 ex xs)"
    using addToFront_inv[OF li1 fresh' _ _ af] by (simp add: h1_def nd_def Node_def)
  note sp = same_payload_fields[OF addToFront_same[OF af]]
  have pl: "\<And>a. payload (h2 a) = payload (h1 a)"
    using addToFront_payload[OF af] by simp
  have plr: "\<And>a. payload (h a) = payload (heap s a)"
    using remove_node_payload[OF rm] by simp
  show "\<exists>m1 m2. cache s = m1 @ (key, ex) # m2 \<and> cache s' = m1 @ (key, nxt s) # m2"
    using c by (auto simp: s')
  show "nxt s' = nxt s + 1" "hits s' = hits s" "misses s' = misses s"
    "totalSize s' = totalSize s - node_size (heap s ex) + sz"
    by (simp_all add: s' s1 spr)
  show "disposed s' = (if opt_noDisposeOnSet opts then disposed s
       else disposed (disposeItem opts s (node_key (heap s ex)) (node_value (heap s ex)) OVERWRITTEN))"
    by (simp add: s' s1_def)
  show "\<forall>a. a \<noteq> nxt s \<longrightarrow> payload (heap s' a) = payload (heap s a)"
    by (simp add: s' pl plr h1_def)
  show "payload (heap s' (nxt s)) = (key, val, sz, if ttl > 0 then Some (now + ttl) else None)"
    using pl[of "nxt s"] by (simp add: s' h1_def nd_def payload_def Node_def)
  have "snd ` set (cache s) = set xs" using inv by (simp add: cache_inv_def)
  then have old: "\<And>e. e \<in> set (cache s) \<Longrightarrow> snd e \<noteq> nxt s"
    using fresh by (metis imageI)
  have on: "nxt s \<notin> snd ` set (cache s)"
    using fresh \<open>snd ` set (cache s) = set xs\<close> by simp
  have sz2: "\<And>e. e \<in> set (cache s) \<Longrightarrow> node_size (h2 (snd e)) = node_size (heap s (snd e))"
    "\<And>e. e \<in> set (cache s) \<Longrightarrow> node_key (h2 (snd e)) = node_key (heap s (snd e))"
    using old by (auto simp: sp h1_def spr)
  have new: "node_size (h2 (nxt s)) = sz" "node_key (h2 (nxt s)) = key"
    by (simp_all add: sp h1_def nd_def Node_def)
  have tot: "totalSize s = sum_list (map (\<lambda>e. node_size (heap s (snd e))) m1) + node_size (heap s ex)
      + sum_list (map (\<lambda>e. node_size (heap s (snd e))) m2)"
    using inv c by (simp add: cache_inv_def)
  have e1: "map (\<lambda>e. node_size (h2 (snd e))) m1 = map (\<lambda>e. node_size (heap s (snd e))) m1"
    and e2: "map (\<lambda>e. node_size (h2 (snd e))) m2 = map (\<lambda>e. node_size (heap s (snd e))) m2"
    using sz2 c by auto
  have sum: "sum_list (map (\<lambda>e. node_size (h2 (snd e))) (m1 @ (key, nxt s) # m2))
      = totalSize s - node_size (h ex) + sz"
    using tot new by (simp add: e1 e2 spr)
  have keys: "\<forall>e\<in>set (m1 @ (key, nxt s) # m2). node_key (h2 (snd e)) = fst e"
    using inv c sz2 new by (auto simp: cache_inv_def)
  have sx: "set (remove1 ex xs) = set xs - {ex}" using li by (simp add: list_inv_def)
  have sets: "snd ` set (m1 @ (key, nxt s) # m2) = insert (nxt s) (set (remove1 ex xs))"
    using \<open>snd ` set (cache s) = set xs\<close> c k1 sx by auto
  have dd: "distinct (map fst (m1 @ (key, nxt s) # m2))" "distinct (map snd (m1 @ (key, nxt s) # m2))"
    using d c on by auto
  have lt: "\<forall>a\<in>set (nxt s # remove1 ex xs). a < nxt s + 1"
    using inv sx by (auto simp: cache_inv_def less_Suc_eq)
  show "cache_inv s' (nxt s # remove1 ex xs)"
    unfolding cache_inv_def using li2 sum keys sets dd lt
    by (simp add: s' image_Un)
qed

lemma cache_inv_entry:
  assumes "cache_inv s xs" "a \<in> set xs"
  shows "(node_key (heap s a), a) \<in> set (cache s)"
proof -
  from assms have "a \<in> snd ` set (cache s)" by (simp add: cache_inv_def)
  then obtain k where "(k, a) \<in> set (cache s)" by force
  moreover from this assms(1) have "node_key (heap s a) = k" by (force simp: cache_inv_def)
  ultimately show ?thesis by simp
qed

lemma cache_inv_lookup:
  assumes "cache_inv s xs" "a \<in> set xs"
  shows "map_of (cache s) (node_key (heap s a)) = Some a"
  using cache_inv_entry[OF assms] assms(1) by (simp add: cache_inv_def)


lemma cache_inv_length: "cache_inv s xs \<Longrightarrow> length (cache s) = length xs"
proof -
  assume a: "cache_inv s xs"
  then have "distinct (map snd (cache s))" "distinct xs" "set (map snd (cache s)) = set xs"
    by (auto simp: cache_inv_def list_inv_def)
  then have "length (map snd (cache s)) = length xs"
    by (metis distinct_card)
  then show ?thesis by simp
qed

lemma evict_tail_empty: "cache_inv s [] \<Longrightarrow> evict_tail opts s = None"
  by (simp add: evict_tail_def cache_inv_def removeTail_empty)

lemma evict_tail_snoc:
  fixes opts :: "('k, 'v) options"
  assumes inv: "cache_inv s (ys @ [a])"
  shows "evict_tail opts s =
     Some ((snd (lru_delete opts s (node_key (heap s a)) EVICTED))
            \<lparr>disposed := disposed s @ (if opt_dispose opts then [evicted_event s ys a] else [])\<rparr>)"
proof -
  have li: "list_inv (heap s) (lst s) (ys @ [a])" using inv by (simp add: cache_inv_def)
  obtain h l where rm: "remove_node (heap s) (lst s) a = (h, l)" by force
  have t: "dll_tail (lst s) = Some a" using list_inv_tail[OF li] by simp
  have rt: "removeTail (heap s) (lst s) = (Some a, h, l)" using t rm by (simp add: removeTail_def)
  have look: "map_of (cache s) (node_key (heap s a)) = Some a"
    using cache_inv_lookup[OF inv] by simp
  note sp = same_payload_fields[OF remove_node_same[OF rm]]
  have r1: "remove1 a (ys @ [a]) = ys" using li by (simp add: list_inv_def remove1_append)
  have li': "list_inv h l ys" using remove_node_inv[OF li _ rm] r1 by simp
  have w: "walk h (nat (dll_length l)) (dll_head l) = ys" using li' by (rule walk_list_inv)
  show ?thesis
    using rt look rm w
    by (simp add: evict_tail_def lru_delete_def Let_def disposeItem_def sp evicted_event_def list_keys_def)
qed

lemma evict_tail_effect:
  fixes opts :: "('k, 'v) options"
  assumes inv: "cache_inv s (ys @ [a])" and ev: "evict_tail opts s = Some s'"
  shows "cache_inv s' ys" "cache s' = map_delete (node_key (heap s a)) (cache s)"
    "same_payload (heap s) (heap s')" "nxt s' = nxt s" "hits s' = hits s" "misses s' = misses s"
    "totalSize s' = totalSize s - node_size (heap s a)"
    "disposed s' = disposed s @ (if opt_dispose opts then [evicted_event s ys a] else [])"
proof -
  have look: "map_of (cache s) (node_key (heap s a)) = Some a"
    using cache_inv_lookup[OF inv] by simp
  have r1: "remove1 a (ys @ [a]) = ys" using inv by (simp add: cache_inv_def list_inv_def remove1_append)
  note d = lru_delete_present[OF inv look, of opts EVICTED]
  have s': "s' = (snd (lru_delete opts s (node_key (heap s a)) EVICTED))
            \<lparr>disposed := disposed s @ (if opt_dispose opts then [evicted_event s ys a] else [])\<rparr>"
    using evict_tail_snoc[OF inv, of opts] ev by simp
  show "cache_inv s' ys" using d(2) r1 by (simp add: s')
  show "cache s' = map_delete (node_key (heap s a)) (cache s)" using d(3) by (simp add: s')
  show "same_payload (heap s) (heap s')" using d(4) by (simp add: s')
  show "nxt s' = nxt s" "hits s' = hits s" "misses s' = misses s"
    "totalSize s' = totalSize s - node_size (heap s a)"
    using d(5-8) by (simp_all add: s')
  show "disposed s' = disposed s @ (if opt_dispose opts then [evicted_event s ys a] else [])"
    by (simp add: s')
qed

lemma capacity_loop_rule:
  fixes opts :: "('k, 'v) options"
  assumes "cache_inv s xs" and "P s xs"
    and step: "\<And>t ys a t'. cache_inv t (ys @ [a]) \<Longrightarrow> over_limit opts t \<Longrightarrow>
        evict_tail opts t = Some t' \<Longrightarrow> P t (ys @ [a]) \<Longrightarrow> P t' ys"
  shows "\<exists>n s'. n \<le> length xs \<and> capacity_loop opts p s = Some (p + (length xs - n), s') \<and>
      cache_inv s' (take n xs) \<and> P s' (take n xs) \<and> (n = 0 \<or> \<not> over_limit opts s')"
  using assms(1,2)
proof (induction xs arbitrary: s p rule: rev_induct)
  case Nil
  then show ?case
    by (auto simp: capacity_loop.simps[of opts p s] evict_tail_empty)
next
  case (snoc a ys)
  show ?case
  proof (cases "over_limit opts s")
    case False
    with snoc.prems show ?thesis
      by (intro exI[of _ "length (ys @ [a])"] exI[of _ s]) (simp add: capacity_loop.simps[of opts p s])
  next
    case True
    obtain t' where ev: "evict_tail opts s = Some t'"
      using evict_tail_snoc[OF snoc.prems(1), of opts] by simp
    have inv': "cache_inv t' ys" using evict_tail_effect(1)[OF snoc.prems(1) ev] .
    have P': "P t' ys" using step[OF snoc.prems(1) True ev snoc.prems(2)] .
    from snoc.IH[OF inv' P', of "p + 1"] obtain n s' where
      r: "n \<le> length ys" "capacity_loop opts (p + 1) t' = Some (p + 1 + (length ys - n), s')"
        "cache_inv s' (take n ys)" "P s' (take n ys)" "n = 0 \<or> \<not> over_limit opts s'"
      by blast
    have "capacity_loop opts p s = Some (p + (length (ys @ [a]) - n), s')"
      using True ev r(1,2) by (simp add: capacity_loop.simps[of opts p s] Suc_diff_le)
    with r show ?thesis
      by (intro exI[of _ n] exI[of _ s']) simp
  qed
qed

lemma due_same: "same_payload h h' \<Longrightarrow> due now (h' a) = due now (h a)"
  by (simp add: due_def same_payload_fields)

lemma remove1_filter: "distinct xs \<Longrightarrow> remove1 n xs = filter (\<lambda>a. a \<noteq> n) xs"
proof (induction xs)
  case Nil
  then show ?case by simp
next
  case (Cons x xs)
  have "n \<notin> set xs \<Longrightarrow> filter (\<lambda>a. a \<noteq> n) xs = xs"
    unfolding filter_id_conv by blast
  with Cons show ?case by auto
qed

lemma map_delete_filter:
  assumes "distinct (map fst m)" "(k, n) \<in> set m"
  shows "map_delete k m = filter (\<lambda>e. e \<noteq> (k, n)) m"
proof -
  have "\<And>e. e \<in> set m \<Longrightarrow> (fst e \<noteq> k) = (e \<noteq> (k, n))"
    using assms by (metis eq_key_imp_eq_value fst_conv prod.collapse)
  then show ?thesis unfolding map_delete_def by (intro filter_cong) simp_all
qed

lemma expire_loop_result:
  fixes opts :: "('k, 'v) options"
  assumes "cache_inv s xs" "set rest \<subseteq> set (cache s)" "distinct (map fst rest)"
  shows "\<exists>s'. expire_loop opts now rest p s =
        (p + length (filter (\<lambda>e. due now (heap s (snd e))) rest), s') \<and>
      cache_inv s' (filter (\<lambda>a. \<not> (a \<in> snd ` set rest \<and> due now (heap s a))) xs) \<and>
      cache s' = filter (\<lambda>e. \<not> (e \<in> set rest \<and> due now (heap s (snd e)))) (cache s) \<and>
      same_payload (heap s) (heap s') \<and> nxt s' = nxt s \<and> hits s' = hits s \<and>
      misses s' = misses s"
  using assms
proof (induction rest arbitrary: s xs p)
  case Nil
  then show ?case by (simp add: same_payload_refl)
next
  case (Cons e rest)
  obtain key n where e: "e = (key, n)" by (cases e)
  have mem: "(key, n) \<in> set (cache s)" using Cons.prems(2) e by simp
  have dk: "distinct (map fst (cache s))" "distinct (map snd (cache s))" "distinct xs"
    using Cons.prems(1) by (auto simp: cache_inv_def list_inv_def)
  have look: "map_of (cache s) key = Some n" using mem dk by simp
  have nin: "n \<in> set xs" using Cons.prems(1) look by (rule cache_inv_mem)
  have knr: "key \<notin> fst ` set rest" using Cons.prems(3) e by simp
  have nnr: "n \<notin> snd ` set rest"
  proof
    assume "n \<in> snd ` set rest"
    then obtain k' where k': "(k', n) \<in> set rest" by force
    then have "(k', n) \<in> set (cache s)" using Cons.prems(2) by auto
    with mem dk(2) have "k' = key"
      by (metis distinct_map fst_conv inj_onD snd_conv)
    with k' knr show False by force
  qed
  show ?case
  proof (cases "due now (heap s n)")
    case True
    define s1 where "s1 = snd (lru_delete opts s key EXPIRED)"
    note d = lru_delete_present[OF Cons.prems(1) look, of opts EXPIRED, folded s1_def]
    have sub: "set rest \<subseteq> set (cache s1)"
      using Cons.prems(2) knr by (force simp: d(3) map_delete_def)
    have dr: "distinct (map fst rest)" using Cons.prems(3) by simp
    from Cons.IH[OF d(2) sub dr, of "p + 1"] obtain s' where
      r: "expire_loop opts now rest (p + 1) s1 =
            (p + 1 + length (filter (\<lambda>e. due now (heap s1 (snd e))) rest), s')"
         "cache_inv s' (filter (\<lambda>a. \<not> (a \<in> snd ` set rest \<and> due now (heap s1 a))) (remove1 n xs))"
         "cache s' = filter (\<lambda>e. \<not> (e \<in> set rest \<and> due now (heap s1 (snd e)))) (cache s1)"
         "same_payload (heap s1) (heap s')" "nxt s' = nxt s1" "hits s' = hits s1"
         "misses s' = misses s1"
      by blast
    note ds = due_same[OF d(4)]
    have x: "filter (\<lambda>a. \<not> (a \<in> snd ` set rest \<and> due now (heap s1 a))) (remove1 n xs)
        = filter (\<lambda>a. \<not> (a \<in> snd ` set (e # rest) \<and> due now (heap s a))) xs"
      using True by (auto simp: remove1_filter[OF dk(3)] ds e intro: filter_cong)
    have c: "filter (\<lambda>e. \<not> (e \<in> set rest \<and> due now (heap s1 (snd e)))) (cache s1)
        = filter (\<lambda>e'. \<not> (e' \<in> set (e # rest) \<and> due now (heap s (snd e')))) (cache s)"
      using True by (auto simp: d(3) map_delete_filter[OF dk(1) mem] ds e intro: filter_cong)
    have "expire_loop opts now (e # rest) p s =
        (p + length (filter (\<lambda>e. due now (heap s (snd e))) (e # rest)), s')"
      using True r(1) by (simp add: e s1_def[symmetric] due_def[symmetric] ds)
    with r(2-) x c d show ?thesis
      by (intro exI[of _ s']) (simp add: same_payload_trans[OF d(4) r(4)])
  next
    case False
    have sub: "set rest \<subseteq> set (cache s)" using Cons.prems(2) by simp
    have dr: "distinct (map fst rest)" using Cons.prems(3) by simp
    from Cons.IH[OF Cons.prems(1) sub dr, of p] obtain s' where
      r: "expire_loop opts now rest p s =
            (p + length (filter (\<lambda>e. due now (heap s (snd e))) rest), s')"
         "cache_inv s' (filter (\<lambda>a. \<not> (a \<in> snd ` set rest \<and> due now (heap s a))) xs)"
         "cache s' = filter (\<lambda>e. \<not> (e \<in> set rest \<and> due now (heap s (snd e)))) (cache s)"
         "same_payload (heap s) (heap s')" "nxt s' = nxt s" "hits s' = hits s"
         "misses s' = misses s"
      by blast
    have x: "filter (\<lambda>a. \<not> (a \<in> snd ` set rest \<and> due now (heap s a))) xs
        = filter (\<lambda>a. \<not> (a \<in> snd ` set (e # rest) \<and> due now (heap s a))) xs"
      using False by (auto simp: e intro: filter_cong)
    have c: "filter (\<lambda>e. \<not> (e \<in> set rest \<and> due now (heap s (snd e)))) (cache s)
        = filter (\<lambda>e'. \<not> (e' \<in> set (e # rest) \<and> due now (heap s (snd e')))) (cache s)"
      using False by (auto simp: e intro: filter_cong)
    have "expire_loop opts now (e # rest) p s =
        (p + length (filter (\<lambda>e. due now (heap s (snd e))) (e # rest)), s')"
      using False r(1) by (simp add: e due_def[symmetric])
    with r(2-) x c show ?thesis
      by (intro exI[of _ s']) simp
  qed
qed

lemma expire_loop_cache:
  fixes opts :: "('k, 'v) options"
  assumes "cache_inv s xs"
  shows "\<exists>s'. expire_loop opts now (cache s) p s =
        (p + length (filter (\<lambda>e. due now (heap s (snd e))) (cache s)), s') \<and>
      cache_inv s' (filter (\<lambda>a. \<not> due now (heap s a)) xs) \<and>
      cache s' = filter (\<lambda>e. \<not> due now (heap s (snd e))) (cache s) \<and>
      same_payload (heap s) (heap s') \<and> nxt s' = nxt s \<and> hits s' = hits s \<and>
      misses s' = misses s"
proof -
  have d: "distinct (map fst (cache s))" and sx: "snd ` set (cache s) = set xs"
    using assms by (auto simp: cache_inv_def)
  have x: "filter (\<lambda>a. \<not> (a \<in> snd ` set (cache s) \<and> due now (heap s a))) xs
      = filter (\<lambda>a. \<not> due now (heap s a)) xs"
    using sx by (auto intro: filter_cong)
  have c: "filter (\<lambda>e. \<not> (e \<in> set (cache s) \<and> due now (heap s (snd e)))) (cache s)
      = filter (\<lambda>e. \<not> due now (heap s (snd e))) (cache s)"
    by (auto intro: filter_cong)
  from expire_loop_result[OF assms subset_refl d, of opts now p] show ?thesis
    unfolding x c .
qed


lemma cache_inv_empty:
  "cache s = [] \<Longrightarrow> lst s = dll_new \<Longrightarrow> totalSize s = 0 \<Longrightarrow> cache_inv s []"
  by (simp add: cache_inv_def list_inv_new)

lemma lru_new_inv: "cache_inv (lru_new h0) []"
  by (simp add: cache_inv_empty lru_new_def)

lemma lru_clear_inv: "cache_inv (lru_clear opts s) []"
  by (rule cache_inv_empty) (simp_all add: lru_clear_def Let_def list_clear_def dll_new_def)


lemma lru_prune_inv:
  fixes opts :: "('k, 'v) options"
  assumes "cache_inv s xs"
  shows "\<exists>p s' xs'. lru_prune opts s now = Some (p, s') \<and> cache_inv s' xs'"
proof -
  from expire_loop_cache[OF assms, of opts now 0] obtain s1 p1 xs1 where
    e: "expire_loop opts now (cache s) 0 s = (p1, s1)" "cache_inv s1 xs1"
    by blast
  from capacity_loop_rule[OF e(2), of "\<lambda>_ _. True" opts p1] obtain n s' where
    "capacity_loop opts p1 s1 = Some (p1 + (length xs1 - n), s')" "cache_inv s' (take n xs1)"
    by blast
  with e(1) show ?thesis by (auto simp: lru_prune_def)
qed

lemma set_insert_inv:
  fixes opts :: "('k, 'v) options"
  assumes "cache_inv s xs"
  shows "\<exists>xs'. cache_inv (set_insert opts s key val io now) xs'"
proof (cases "map_of (cache s) key")
  case None
  from set_insert_absent(1)[OF assms None] show ?thesis by blast
next
  case (Some ex)
  from set_insert_present(1)[OF assms Some] show ?thesis by blast
qed

lemma lru_set_inv:
  fixes opts :: "('k, 'v) options"
  assumes "cache_inv s xs"
  shows "\<exists>s' xs'. lru_set opts s key val io now = Some s' \<and> cache_inv s' xs'"
proof -
  from set_insert_inv[OF assms, of opts key val io now] obtain xs1 where
    "cache_inv (set_insert opts s key val io now) xs1" by blast
  from lru_prune_inv[OF this, of opts now] show ?thesis
    by (auto simp: lru_set_def)
qed

lemma set_all_inv:
  fixes opts :: "('k, 'v) options"
  assumes "cache_inv s xs"
  shows "\<exists>s' xs'. set_all opts now data s = Some s' \<and> cache_inv s' xs'"
  using assms
proof (induction data arbitrary: s xs)
  case Nil
  then show ?case by auto
next
  case (Cons d data)
  obtain key val io where d: "d = (key, val, io)" by (cases d)
  from lru_set_inv[OF Cons.prems, of opts key val io now] obtain s1 xs1 where
    s1: "lru_set opts s key val io now = Some s1" "cache_inv s1 xs1" by blast
  from Cons.IH[OF s1(2)] s1(1) show ?case by (simp add: d)
qed

lemma lru_deserialize_inv:
  fixes opts :: "('k, 'v) options"
  shows "\<exists>s' xs'. lru_deserialize opts s data now = Some s' \<and> cache_inv s' xs'"
  unfolding lru_deserialize_def using set_all_inv[OF lru_clear_inv] .

section \<open>Invariants of the reachable states\<close>

lemma reachable_inv:
  fixes opts :: "('k, 'v) options"
  assumes "reachable ok opts s"
  shows "\<exists>xs. cache_inv s xs"
  using assms
proof (induction rule: reachable.induct)
  case (r_new h0)
  show ?case using lru_new_inv by blast
next
  case (r_get s key now)
  then obtain xs where "cache_inv s xs" by blast
  from lru_get_inv[OF this] show ?case .
next
  case (r_has s key now)
  then show ?case by (simp add: lru_has_def split: option.splits)
next
  case (r_peek s key now)
  then show ?case by (simp add: lru_peek_def split: option.splits)
next
  case (r_set s val key io now s')
  then obtain xs where "cache_inv s xs" by blast
  from lru_set_inv[OF this, of opts key val io now] r_set.hyps show ?case by auto
next
  case (r_delete s key reason)
  then obtain xs where inv: "cache_inv s xs" by blast
  show ?case
  proof (cases "map_of (cache s) key")
    case None
    with inv show ?thesis by (auto simp: lru_delete_absent)
  next
    case (Some n)
    from lru_delete_present(2)[OF inv Some] show ?thesis by blast
  qed
next
  case (r_clear s)
  show ?case using lru_clear_inv by blast
next
  case (r_prune s now n s')
  then obtain xs where "cache_inv s xs" by blast
  from lru_prune_inv[OF this, of opts now] r_prune.hyps show ?case by auto
next
  case (r_serialize s now)
  then show ?case by (simp add: lru_serialize_def)
next
  case (r_deserialize s data now s')
  from lru_deserialize_inv[of opts s data now] r_deserialize.hyps show ?case by auto
qed

lemma first_set_reachable:
  fixes opts :: "('k, 'v) options"
  shows "reachable (\<lambda>z. True) opts (the (lru_set opts (lru_new h0) key val io now))"
proof -
  from lru_set_inv[OF lru_new_inv, of opts h0 key val io now] obtain s' where
    s': "lru_set opts (lru_new h0) key val io now = Some s'" by blast
  have "reachable (\<lambda>z. True) opts s'"
    by (rule r_set[OF r_new _ s']) simp
  then show ?thesis by (simp add: s')
qed

section \<open>Dispose calls and the oversized entry\<close>




lemma cache_inv_single:
  assumes "cache_inv s [n]"
  shows "cache s = [(node_key (heap s n), n)]" "totalSize s = node_size (heap s n)"
proof -
  have l: "length (cache s) = 1" using cache_inv_length[OF assms] by simp
  then obtain e where e: "cache s = [e]" by (cases "cache s") auto
  have "(node_key (heap s n), n) \<in> set (cache s)" using cache_inv_entry[OF assms] by simp
  with e show c: "cache s = [(node_key (heap s n), n)]" by simp
  show "totalSize s = node_size (heap s n)" using assms by (simp add: cache_inv_def c)
qed

lemma cache_inv_nil: "cache_inv s [] \<Longrightarrow> cache s = []"
  using cache_inv_length[of s "[]"] by simp

lemma capacity_loop_empty:
  "cache_inv s [] \<Longrightarrow> capacity_loop opts p s = Some (p, s)"
  by (simp add: capacity_loop.simps[of opts p s] evict_tail_empty)

lemma capacity_loop_single_oversized:
  fixes opts :: "('k, 'v) options"
  assumes inv: "cache_inv s [n]" and m: "opt_maxSize opts = Some m" and big: "m < node_size (heap s n)"
  shows "\<exists>s'. capacity_loop opts p s = Some (p + 1, s') \<and> cache s' = [] \<and> lru_size s' = 0 \<and>
      dll_head (lst s') = None \<and>
      disposed s' = disposed s @ (if opt_dispose opts then [evicted_event s [] n] else [])"
proof -
  have over: "over_limit opts s" using m big cache_inv_single(2)[OF inv] by (simp add: over_limit_def)
  have inv': "cache_inv s ([] @ [n])" using inv by simp
  obtain t where ev: "evict_tail opts s = Some t"
    using evict_tail_snoc[OF inv', of opts] by simp
  note eff = evict_tail_effect[OF inv' ev]
  have "capacity_loop opts p s = Some (p + 1, t)"
    using over ev capacity_loop_empty[OF eff(1), of opts "p + 1"]
    by (simp add: capacity_loop.simps[of opts p s])
  moreover have "cache t = []" using eff(1) by (rule cache_inv_nil)
  moreover have "list_inv (heap t) (lst t) []" using eff(1) by (simp add: cache_inv_def)
  then have "dll_head (lst t) = None" by (simp add: list_inv_head)
  ultimately show ?thesis using eff(8) by (simp add: lru_size_def)
qed

lemma lru_set_oversized_on_empty:
  fixes opts :: "('k, 'v) options"
  assumes inv: "cache_inv s0 []" and m: "opt_maxSize opts = Some m"
    and big: "m < item_size opts val key io"
  shows "\<exists>s'. lru_set opts s0 key val io now = Some s' \<and> cache s' = [] \<and>
      fst (lru_has opts s' key now') = False"
proof -
  have look: "map_of (cache s0) key = None" using cache_inv_nil[OF inv] by simp
  define s1 where "s1 = set_insert opts s0 key val io now"
  note ins = set_insert_absent[OF inv look, of opts val io now, folded s1_def]
  have nd: "\<not> due now (heap s1 (nxt s0))"
    using ins(4) by (auto simp: due_def payload_def split: if_splits)
  from expire_loop_cache[OF ins(1), of opts now 0] nd obtain p2 s2 where
    e: "expire_loop opts now (cache s1) 0 s1 = (p2, s2)" "cache_inv s2 [nxt s0]"
      "same_payload (heap s1) (heap s2)"
    by auto
  have "node_size (heap s2 (nxt s0)) = item_size opts val key io"
    using same_payload_fields(3)[OF e(3), of "nxt s0"] ins(4) by (simp add: payload_def)
  with big have big2: "m < node_size (heap s2 (nxt s0))" by simp
  from capacity_loop_single_oversized[OF e(2) m big2, of p2] obtain s' where
    "capacity_loop opts p2 s2 = Some (p2 + 1, s')" "cache s' = []" by blast
  with e(1) show ?thesis
    by (intro exI[of _ s']) (simp add: lru_set_def lru_prune_def s1_def lru_has_def)
qed

lemma set_insert_first:
  fixes opts :: "('k, 'v) options"
  shows "cache_inv (set_insert opts (lru_new h0) key val io now) [0]"
proof -
  have look: "map_of (cache (lru_new h0)) key = None" by (simp add: lru_new_def)
  show ?thesis
    using set_insert_absent(1)[OF lru_new_inv look, of opts val io now] by (simp add: lru_new_def)
qed

section \<open>The order of recency after set\<close>







lemma reachable_set:
  fixes opts :: "('k, 'v) options"
  assumes "reachable ok opts s" "ok (item_size opts val key io)"
  shows "reachable ok opts (the (lru_set opts s key val io now))"
proof -
  from reachable_inv[OF assms(1)] obtain xs where "cache_inv s xs" by blast
  from lru_set_inv[OF this, of opts key val io now] obtain s' where
    s': "lru_set opts s key val io now = Some s'" by blast
  from r_set[OF assms s'] show ?thesis by (simp add: s')
qed


section \<open>Serialize and deserialize\<close>



















lemma map_of_map_delete: "map_of (map_delete k m) k = None"
  by (auto simp: map_delete_def map_of_eq_None_iff)

section \<open>The claims\<close>

text \<open>
  C1, as amended. With a size limit, the second loop of prune on a cache whose only
  entry is larger than the limit evicts that entry and ends on the empty cache (one
  dispose call with reason EVICTED when there is a callback); in particular set of an
  item larger than the limit into an empty cache returns with the cache empty, and has
  is false for the key.
\<close>

theorem C1_oversized_entry_is_evicted:
  fixes opts :: "('k, 'v) options"
  assumes "opt_maxSize opts = Some m"
  shows "(cache_inv s [n] \<and> m < node_size (heap s n) \<longrightarrow>
       (\<exists>s'. capacity_loop opts p s = Some (p + 1, s') \<and> cache s' = [] \<and> lru_size s' = 0 \<and>
          dll_head (lst s') = None \<and>
          disposed s' = disposed s @ (if opt_dispose opts then [evicted_event s [] n] else []))) \<and>
     (cache_inv s0 [] \<and> m < item_size opts val key io \<longrightarrow>
       (\<exists>s'. lru_set opts s0 key val io now = Some s' \<and> cache s' = [] \<and>
          fst (lru_has opts s' key now') = False))"
  using capacity_loop_single_oversized[OF _ assms, of s n p]
    lru_set_oversized_on_empty[OF _ assms, of s0 val key io now now']
  by blast

theorem C1_oversized_entry_is_evicted_witness:
  "opt_maxSize (default_options\<lparr>opt_maxSize := Some 10\<rparr>) = Some 10 \<and>
   cache_inv (set_insert (default_options\<lparr>opt_maxSize := Some 10\<rparr>) (lru_new blank) ''a'' 1
       \<lparr>io_ttl = None, io_size = Some 20\<rparr> 0) [0] \<and>
   10 < node_size (heap (set_insert (default_options\<lparr>opt_maxSize := Some 10\<rparr>) (lru_new blank) ''a'' 1
       \<lparr>io_ttl = None, io_size = Some 20\<rparr> 0) 0) \<and>
   (\<exists>s'. capacity_loop (default_options\<lparr>opt_maxSize := Some 10\<rparr>) 0
       (set_insert (default_options\<lparr>opt_maxSize := Some 10\<rparr>) (lru_new blank) ''a'' 1
         \<lparr>io_ttl = None, io_size = Some 20\<rparr> 0) = Some (0 + 1, s') \<and> cache s' = []) \<and>
   cache_inv (lru_new blank) [] \<and>
   10 < item_size (default_options\<lparr>opt_maxSize := Some 10\<rparr>) 1 ''a'' \<lparr>io_ttl = None, io_size = Some 20\<rparr> \<and>
   (\<exists>s'. lru_set (default_options\<lparr>opt_maxSize := Some 10\<rparr>) (lru_new blank) ''a'' 1
       \<lparr>io_ttl = None, io_size = Some 20\<rparr> 0 = Some s' \<and> cache s' = [] \<and>
       fst (lru_has (default_options\<lparr>opt_maxSize := Some 10\<rparr>) s' ''a'' 0) = False)"
proof -
  let ?o = "default_options\<lparr>opt_maxSize := Some 10\<rparr>"
  let ?io = "\<lparr>io_ttl = None, io_size = Some 20\<rparr>"
  let ?s = "set_insert ?o (lru_new blank) ''a'' 1 ?io 0"
  have m: "opt_maxSize ?o = Some 10" by simp
  have i1: "cache_inv ?s [0]" by (rule set_insert_first)
  have b1: "10 < node_size (heap ?s 0)" by code_simp
  have i0: "cache_inv (lru_new blank) []" by (rule lru_new_inv)
  have b0: "10 < item_size ?o 1 ''a'' ?io" by (simp add: item_size_def)
  from C1_oversized_entry_is_evicted[OF m, of ?s 0 0 "lru_new blank" 1 "''a''" ?io 0 0] m i1 b1 i0 b0
  show ?thesis by blast
qed

text \<open>
  The claim as it was made fails: with a size limit of 10, set of an item of size 20
  into a new cache returns with the cache empty, and has is false for the key.
\<close>

theorem C1_counterexample:
  "lru_set (default_options\<lparr>opt_maxSize := Some 10\<rparr>) (lru_new blank) ''a'' 1
       \<lparr>io_ttl = None, io_size = Some 20\<rparr> 0 \<noteq> None \<and>
   lru_size (the (lru_set (default_options\<lparr>opt_maxSize := Some 10\<rparr>) (lru_new blank) ''a'' 1
       \<lparr>io_ttl = None, io_size = Some 20\<rparr> 0)) = 0 \<and>
   fst (lru_has (default_options\<lparr>opt_maxSize := Some 10\<rparr>)
     (the (lru_set (default_options\<lparr>opt_maxSize := Some 10\<rparr>) (lru_new blank) ''a'' 1
       \<lparr>io_ttl = None, io_size = Some 20\<rparr> 0)) ''a'' 0) = False"
  by code_simp




text \<open>
  C3, at the instant of expiry. With a time to live of 1000 and stale entries not
  allowed, an entry set at instant 0 expires at 1000. get at 1000 returns its value,
  counts a hit and keeps the entry, where the claim has it removed and a miss counted;
  prune at the same instant removes the entry and serialize leaves it out. One
  instant later get does remove it.
\<close>

theorem C3_get_at_expiry_instant:
  "node_expiry (heap (the (lru_set (default_options\<lparr>opt_ttl := 1000\<rparr>) (lru_new blank) ''x'' 9 no_options 0)) 0)
     = Some 1000 \<and>
   fst (lru_get (default_options\<lparr>opt_ttl := 1000\<rparr>)
     (the (lru_set (default_options\<lparr>opt_ttl := 1000\<rparr>) (lru_new blank) ''x'' 9 no_options 0)) ''x'' 1000)
     = Some 9 \<and>
   hits (snd (lru_get (default_options\<lparr>opt_ttl := 1000\<rparr>)
     (the (lru_set (default_options\<lparr>opt_ttl := 1000\<rparr>) (lru_new blank) ''x'' 9 no_options 0)) ''x'' 1000))
     = 1 \<and>
   misses (snd (lru_get (default_options\<lparr>opt_ttl := 1000\<rparr>)
     (the (lru_set (default_options\<lparr>opt_ttl := 1000\<rparr>) (lru_new blank) ''x'' 9 no_options 0)) ''x'' 1000))
     = 0 \<and>
   cache (snd (lru_get (default_options\<lparr>opt_ttl := 1000\<rparr>)
     (the (lru_set (default_options\<lparr>opt_ttl := 1000\<rparr>) (lru_new blank) ''x'' 9 no_options 0)) ''x'' 1000))
     = [(''x'', 0)] \<and>
   map_option (cache \<circ> snd) (lru_prune (default_options\<lparr>opt_ttl := 1000\<rparr>)
     (the (lru_set (default_options\<lparr>opt_ttl := 1000\<rparr>) (lru_new blank) ''x'' 9 no_options 0)) 1000)
     = Some [] \<and>
   fst (lru_serialize (default_options\<lparr>opt_ttl := 1000\<rparr>)
     (the (lru_set (default_options\<lparr>opt_ttl := 1000\<rparr>) (lru_new blank) ''x'' 9 no_options 0)) 1000)
     = [] \<and>
   fst (lru_get (default_options\<lparr>opt_ttl := 1000\<rparr>)
     (the (lru_set (default_options\<lparr>opt_ttl := 1000\<rparr>) (lru_new blank) ''x'' 9 no_options 0)) ''x'' 1001)
     = None \<and>
   cache (snd (lru_get (default_options\<lparr>opt_ttl := 1000\<rparr>)
     (the (lru_set (default_options\<lparr>opt_ttl := 1000\<rparr>) (lru_new blank) ''x'' 9 no_options 0)) ''x'' 1001))
     = []"
  by code_simp

text \<open>
  C4. In every state that the public operations (get, has, peek, set, delete, clear,
  prune, serialize, deserialize) reach from a new cache, the nodes from the head of the
  list to its tail form a sequence without repetition; the size accessor, the number of
  keys in the map, the length field of the list and the number of nodes in the list are
  all equal.
\<close>

theorem C4_size_index_list_agree:
  fixes opts :: "('k, 'v) options"
  assumes "reachable ok opts s"
  shows "\<exists>xs. list_is (heap s) (lst s) xs \<and> distinct xs \<and>
      lru_size s = card (fst ` set (cache s)) \<and>
      dll_length (lst s) = int (lru_size s) \<and> length xs = lru_size s"
proof -
  from reachable_inv[OF assms] obtain xs where inv: "cache_inv s xs" by blast
  have d: "distinct (map fst (cache s))" using inv by (simp add: cache_inv_def)
  have "card (fst ` set (cache s)) = length (cache s)"
    using distinct_card[OF d] by simp
  with inv cache_inv_length[OF inv] show ?thesis
    by (intro exI[of _ xs]) (simp add: cache_inv_def list_inv_def lru_size_def)
qed

theorem C4_size_index_list_agree_witness:
  "reachable (\<lambda>z. True) default_options (the (lru_set default_options (lru_new blank) ''a'' 1 no_options 0)) \<and>
   (\<exists>xs. list_is (heap (the (lru_set default_options (lru_new blank) ''a'' 1 no_options 0)))
           (lst (the (lru_set default_options (lru_new blank) ''a'' 1 no_options 0))) xs \<and>
         distinct xs \<and>
         lru_size (the (lru_set default_options (lru_new blank) ''a'' 1 no_options 0))
           = card (fst ` set (cache (the (lru_set default_options (lru_new blank) ''a'' 1 no_options 0)))) \<and>
         dll_length (lst (the (lru_set default_options (lru_new blank) ''a'' 1 no_options 0)))
           = int (lru_size (the (lru_set default_options (lru_new blank) ''a'' 1 no_options 0))) \<and>
         length xs = lru_size (the (lru_set default_options (lru_new blank) ''a'' 1 no_options 0)))"
  using first_set_reachable[of default_options blank "''a''" 1 no_options 0]
    C4_size_index_list_agree[OF first_set_reachable[of default_options blank "''a''" 1 no_options 0]]
  by blast










text \<open>
  C9. For every key, every state and every instant, has and peek return the cache as
  they found it: the store, the map, the list, the total size, the counters of hits and
  misses and the log of dispose calls are all unchanged, whether the entry is expired
  or not.
\<close>

theorem C9_has_peek_leave_cache_unchanged:
  "snd (lru_has opts s key now) = s \<and> snd (lru_peek opts s key now) = s"
  by (simp add: lru_has_def lru_peek_def split: option.splits)




section \<open>get after the instant of expiry\<close>

text \<open>
  X1. In every reachable state, for every key whose entry has an expiry before the
  instant of the call, with stale entries not allowed, get removes the entry through
  delete with reason EXPIRED (one dispose call when there is a callback), counts a
  miss and no hit, and returns nothing.
\<close>

theorem get_removes_entry_expired_before_now:
  fixes opts :: "('k, 'v) options"
  assumes "reachable ok opts s" and "map_of (cache s) key = Some n"
    and "node_expiry (heap s n) = Some e" and "e < now" and "\<not> opt_allowStale opts"
  shows "fst (lru_get opts s key now) = None \<and>
     misses (snd (lru_get opts s key now)) = misses s + 1 \<and>
     hits (snd (lru_get opts s key now)) = hits s \<and>
     map_of (cache (snd (lru_get opts s key now))) key = None \<and>
     lru_size (snd (lru_get opts s key now)) + 1 = lru_size s \<and>
     (opt_dispose opts \<longrightarrow>
        (\<exists>ev. disposed (snd (lru_get opts s key now)) = disposed s @ [ev] \<and> d_key ev = key \<and>
           d_value ev = node_value (heap s n) \<and> d_reason ev = EXPIRED))"
proof -
  from reachable_inv[OF assms(1)] obtain xs where inv: "cache_inv s xs" by blast
  define s1 where "s1 = snd (lru_delete opts s key EXPIRED)"
  note d = lru_delete_present[OF inv assms(2), of opts EXPIRED, folded s1_def]
  have g: "lru_get opts s key now = (None, s1\<lparr>misses := misses s1 + 1\<rparr>)"
    using assms(2-5) by (simp add: lru_get_def s1_def Let_def)
  have nin: "n \<in> set xs" using inv assms(2) by (rule cache_inv_mem)
  have "length (cache s1) = length (remove1 n xs)" using d(2) by (rule cache_inv_length)
  moreover have "length (cache s) = length xs" using inv by (rule cache_inv_length)
  ultimately have len: "length (cache s1) + 1 = length (cache s)"
    using nin by (simp add: length_remove1) (metis Suc_pred length_pos_if_in_set)
  have k: "node_key (heap s n) = key"
    using inv map_of_SomeD[OF assms(2)] by (force simp: cache_inv_def)
  show ?thesis
    using d(3,6,7,9) len k
    by (simp add: g map_of_map_delete lru_size_def disposeItem_def)
qed

theorem get_removes_entry_expired_before_now_witness:
  "reachable (\<lambda>z. True) (default_options\<lparr>opt_ttl := 1000\<rparr>)
     (the (lru_set (default_options\<lparr>opt_ttl := 1000\<rparr>) (lru_new blank) ''x'' 9 no_options 0)) \<and>
   map_of (cache (the (lru_set (default_options\<lparr>opt_ttl := 1000\<rparr>) (lru_new blank) ''x'' 9 no_options 0)))
     ''x'' = Some 0 \<and>
   node_expiry (heap (the (lru_set (default_options\<lparr>opt_ttl := 1000\<rparr>) (lru_new blank) ''x'' 9 no_options 0)) 0)
     = Some 1000 \<and>
   (1000 :: int) < 1001 \<and> \<not> opt_allowStale (default_options\<lparr>opt_ttl := 1000\<rparr>) \<and>
   fst (lru_get (default_options\<lparr>opt_ttl := 1000\<rparr>)
     (the (lru_set (default_options\<lparr>opt_ttl := 1000\<rparr>) (lru_new blank) ''x'' 9 no_options 0)) ''x'' 1001)
     = None \<and>
   misses (snd (lru_get (default_options\<lparr>opt_ttl := 1000\<rparr>)
     (the (lru_set (default_options\<lparr>opt_ttl := 1000\<rparr>) (lru_new blank) ''x'' 9 no_options 0)) ''x'' 1001))
     = misses (the (lru_set (default_options\<lparr>opt_ttl := 1000\<rparr>) (lru_new blank) ''x'' 9 no_options 0)) + 1 \<and>
   map_of (cache (snd (lru_get (default_options\<lparr>opt_ttl := 1000\<rparr>)
     (the (lru_set (default_options\<lparr>opt_ttl := 1000\<rparr>) (lru_new blank) ''x'' 9 no_options 0)) ''x'' 1001)))
     ''x'' = None"
proof -
  let ?o = "default_options\<lparr>opt_ttl := 1000\<rparr>"
  let ?s = "the (lru_set ?o (lru_new blank) ''x'' 9 no_options 0)"
  have r: "reachable (\<lambda>z. True) ?o ?s" by (intro reachable_set r_new) simp
  have l: "map_of (cache ?s) ''x'' = Some 0" by code_simp
  have x: "node_expiry (heap ?s 0) = Some 1000" by code_simp
  have lt: "(1000 :: int) < 1001" by simp
  have a: "\<not> opt_allowStale ?o" by (simp add: default_options_def)
  from get_removes_entry_expired_before_now[OF r l x lt a] r l x lt a show ?thesis by blast
qed

end
